theory Spec2Isabelle
  imports Main "HOL-Library.Sublist"
begin

section \<open>The Kalipso transpiler (kalipso.c)\<close>

text \<open>
  Conventions of the embedding.
  \<^item> A C string (\<open>char *\<close>, \<open>char[]\<close>) is the list of its characters before the
    terminating NUL; the end of the list plays the role of the NUL. The capacity of the
    character buffers (\<open>output[MAX_LINE]\<close>, \<open>tmp[64]\<close>, \<open>name[64]\<close>) is a matter
    of memory layout and is not part of the model, except where the code tests it
    itself (the 63 characters of a token, the 100 tokens of a line).
  \<^item> The global arrays \<open>vars\<close> and \<open>output_lines\<close> together with their counters
    \<open>var_count\<close> and \<open>output_count\<close> are lists: the list is the used prefix of the
    array, its length the counter.
  \<^item> \<open>error\<close> prints its message and leaves the process with status 1; a function
    that can reach it returns \<open>Inl (Fatal msg)\<close>.
  \<^item> \<open>isalpha\<close>, \<open>isalnum\<close> and \<open>isspace\<close> are those of the C locale.
\<close>

subsection \<open>Constants and data\<close>

definition MAX_VARS :: nat where "MAX_VARS = 256"
definition MAX_LINE :: nat where "MAX_LINE = 1024"
definition MAX_TOKENS :: nat where "MAX_TOKENS = 100"
definition MAX_LINES :: nat where "MAX_LINES = 10000"

record Variable =
  name :: string
  used :: int

record state =
  vars :: "Variable list"
  output_lines :: "string list"

definition var_count :: "state \<Rightarrow> nat" where
  "var_count st = length (vars st)"

definition output_count :: "state \<Rightarrow> nat" where
  "output_count st = length (output_lines st)"

definition init_state :: state where
  "init_state = \<lparr>vars = [], output_lines = []\<rparr>"

datatype error = Fatal string

subsection \<open>Character classes of the C locale\<close>

definition isalpha :: "char \<Rightarrow> bool" where
  "isalpha c = (let n = (of_char c :: nat) in (65 \<le> n \<and> n \<le> 90) \<or> (97 \<le> n \<and> n \<le> 122))"

definition isdigit :: "char \<Rightarrow> bool" where
  "isdigit c = (let n = (of_char c :: nat) in 48 \<le> n \<and> n \<le> 57)"

definition isalnum :: "char \<Rightarrow> bool" where
  "isalnum c = (isalpha c \<or> isdigit c)"

definition isspace :: "char \<Rightarrow> bool" where
  "isspace c = (let n = (of_char c :: nat) in n = 32 \<or> (9 \<le> n \<and> n \<le> 13))"

subsection \<open>Formatting\<close>

text \<open>\<open>%d\<close> of a non-negative \<open>int\<close>.\<close>

definition digit_char :: "nat \<Rightarrow> char" where
  "digit_char d = ''0123456789'' ! d"

function dec :: "nat \<Rightarrow> string" where
  "dec n = (if n < 10 then [digit_char n] else dec (n div 10) @ [digit_char (n mod 10)])"
  by pat_completeness auto
termination
  by (relation "measure id") auto

declare dec.simps [simp del]

definition dquote :: char where "dquote = CHR 0x22"
definition backslash :: char where "backslash = CHR 0x5C"
definition newline :: char where "newline = CHR 0x0A"
definition NUL :: char where "NUL = CHR 0x00"

text \<open>The C literal \<open>"    printf(\"%lld\\n\", "\<close>.\<close>

definition printf_prefix :: string where
  "printf_prefix = ''    printf('' @ [dquote] @ ''%lld'' @ [backslash] @ ''n'' @ [dquote] @ '', ''"

text \<open>The format \<open>"    scanf(\"%%lld\", &v%d);"\<close> applied to \<open>idx\<close>.\<close>

definition scanf_line :: "nat \<Rightarrow> string" where
  "scanf_line idx = ''    scanf('' @ [dquote] @ ''%lld'' @ [dquote] @ '', &v'' @ dec idx @ '');''"

subsection \<open>Symbol table: \<open>find_or_add_var\<close>\<close>

text \<open>The search loop \<open>for (i = 0; i < var_count; i++)\<close>, started at index \<open>i\<close>
  on the rest of the array.\<close>

fun find_var :: "Variable list \<Rightarrow> string \<Rightarrow> nat \<Rightarrow> nat option" where
  "find_var [] n i = None"
| "find_var (v # vs) n i = (if name v = n then Some i else find_var vs n (Suc i))"

definition find_or_add_var :: "string \<Rightarrow> state \<Rightarrow> error + (nat \<times> state)" where
  "find_or_add_var n st =
     (case find_var (vars st) n 0 of
        Some i \<Rightarrow> Inr (i, st)
      | None \<Rightarrow>
          if var_count st \<ge> MAX_VARS then Inl (Fatal ''Too many variables'')
          else Inr (var_count st, st\<lparr>vars := vars st @ [\<lparr>name = n, used = 1\<rparr>]\<rparr>))"

subsection \<open>\<open>is_identifier\<close>\<close>

text \<open>The loop \<open>for (i = 1; s[i]; i++)\<close> over the rest of the string.\<close>

fun ident_rest :: "string \<Rightarrow> bool" where
  "ident_rest [] = True"
| "ident_rest (c # cs) = (if \<not> isalnum c \<and> c \<noteq> CHR ''_'' then False else ident_rest cs)"

fun is_identifier :: "string \<Rightarrow> bool" where
  "is_identifier [] = False"
| "is_identifier (c # cs) = (if \<not> isalpha c \<and> c \<noteq> CHR ''_'' then False else ident_rest cs)"

subsection \<open>\<open>tokenize\<close>\<close>

text \<open>\<open>while (isspace(*p)) p++;\<close>\<close>

fun skip_space :: "string \<Rightarrow> string" where
  "skip_space [] = []"
| "skip_space (c # cs) = (if isspace c then skip_space cs else c # cs)"

text \<open>The inner loop \<open>while ((isalnum(*p) || *p == '_') && i < 63)\<close>: the characters
  copied into the token from position \<open>i\<close> on, and the rest of the line.\<close>

fun scan_word :: "string \<Rightarrow> nat \<Rightarrow> string \<times> string" where
  "scan_word [] i = ([], [])"
| "scan_word (c # cs) i =
     (if (isalnum c \<or> c = CHR ''_'') \<and> i < 63
      then (case scan_word cs (Suc i) of (w, r) \<Rightarrow> (c # w, r))
      else ([], c # cs))"

text \<open>One token at a non-empty, non-space position.\<close>

fun next_token :: "string \<Rightarrow> string \<times> string" where
  "next_token [] = ([], [])"
| "next_token (c # cs) =
     (if isalnum c \<or> c = CHR ''_'' then scan_word (c # cs) 0 else ([c], cs))"

lemma scan_word_length: "scan_word p i = (w, r) \<Longrightarrow> length r \<le> length p"
proof (induction p arbitrary: i w r)
  case Nil
  then show ?case by simp
next
  case (Cons c cs)
  show ?case
  proof (cases "(isalnum c \<or> c = CHR ''_'') \<and> i < 63")
    case True
    obtain w' r' where s: "scan_word cs (Suc i) = (w', r')"
      by (cases "scan_word cs (Suc i)")
    from Cons.IH [OF s] have "length r' \<le> length cs" .
    moreover from Cons.prems True s have "r = r'" by simp
    ultimately show ?thesis by simp
  next
    case False
    with Cons.prems show ?thesis by auto
  qed
qed

lemma skip_space_length: "length (skip_space p) \<le> length p"
  by (induction p) auto

lemma next_token_length:
  assumes "p \<noteq> []" and "next_token p = (tok, p2)"
  shows "length p2 < length p"
proof (cases p)
  case Nil
  with assms(1) show ?thesis by simp
next
  case (Cons c cs)
  show ?thesis
  proof (cases "isalnum c \<or> c = CHR ''_''")
    case True
    obtain w' r' where s: "scan_word cs (Suc 0) = (w', r')"
      by (cases "scan_word cs (Suc 0)")
    from scan_word_length [OF s] have "length r' \<le> length cs" .
    moreover from assms(2) Cons True s have "p2 = r'" by auto
    ultimately show ?thesis using Cons by simp
  next
    case False
    with assms(2) Cons show ?thesis by auto
  qed
qed

lemma tokenize_step_length:
  assumes "skip_space p \<noteq> []" and "(tok, p2) = next_token (skip_space p)"
  shows "length p2 < length p"
proof -
  have "length p2 < length (skip_space p)"
    using assms(1) assms(2) [symmetric] by (rule next_token_length)
  with skip_space_length [of p] show ?thesis by simp
qed

text \<open>The outer loop \<open>while (*p && *count < MAX_TOKENS)\<close>; \<open>toks\<close> is the filled
  prefix of \<open>tokens\<close>, its length is \<open>*count\<close>.\<close>

function tokenize_loop :: "string \<Rightarrow> string list \<Rightarrow> string list" where
  "tokenize_loop p toks =
     (if p \<noteq> [] \<and> length toks < MAX_TOKENS then
        (let p1 = skip_space p in
         if p1 = [] then toks
         else (case next_token p1 of (tok, p2) \<Rightarrow> tokenize_loop p2 (toks @ [tok])))
      else toks)"
  by pat_completeness auto
termination
  by (relation "measure (\<lambda>(p, toks). length p)") (auto simp: tokenize_step_length)

declare tokenize_loop.simps [simp del]

definition tokenize :: "string \<Rightarrow> string list" where
  "tokenize line = tokenize_loop line []"

subsection \<open>\<open>add_output_line\<close>\<close>

definition add_output_line :: "string \<Rightarrow> state \<Rightarrow> error + state" where
  "add_output_line line st =
     (if output_count st \<ge> MAX_LINES then Inl (Fatal ''Too many lines'')
      else Inr (st\<lparr>output_lines := output_lines st @ [line]\<rparr>))"

subsection \<open>\<open>compile_line\<close>\<close>

text \<open>The loop \<open>for (i = k; i < token_count; i++)\<close> that appends the tokens of an
  expression to \<open>output\<close>; \<open>compile_line\<close> has it twice with the same body, from
  \<open>k = 1\<close> for \<open>print\<close> and from \<open>k = 2\<close> for an assignment. The first argument is
  \<open>tokens[i .. token_count - 1]\<close>, so \<open>i < token_count - 1\<close> says that more tokens
  follow.\<close>

fun expr_loop :: "string list \<Rightarrow> string \<Rightarrow> state \<Rightarrow> error + (string \<times> state)" where
  "expr_loop [] output st = Inr (output, st)"
| "expr_loop (t # ts) output st =
     (case (if is_identifier t
            then (case find_or_add_var t st of
                    Inl e \<Rightarrow> Inl e
                  | Inr (idx, st') \<Rightarrow> Inr (output @ ''v'' @ dec idx, st'))
            else Inr (output @ t, st)) of
        Inl e \<Rightarrow> Inl e
      | Inr (output', st') \<Rightarrow>
          expr_loop ts (if ts \<noteq> [] then output' @ '' '' else output') st')"

text \<open>The body of \<open>compile_line\<close> after \<open>token_count == 0\<close> has been excluded.\<close>

definition compile_tokens :: "string list \<Rightarrow> state \<Rightarrow> error + state" where
  "compile_tokens tokens st =
     (if tokens ! 0 = ''print'' then
        if length tokens < 2 then Inl (Fatal ''print needs an argument'')
        else (case expr_loop (drop 1 tokens) printf_prefix st of
                Inl e \<Rightarrow> Inl e
              | Inr (output, st') \<Rightarrow> add_output_line (output @ '');'') st')
      else if tokens ! 0 = ''input'' then
        if length tokens \<noteq> 2 then Inl (Fatal ''input needs one variable'')
        else if \<not> is_identifier (tokens ! 1) then Inl (Fatal ''input needs a variable name'')
        else (case find_or_add_var (tokens ! 1) st of
                Inl e \<Rightarrow> Inl e
              | Inr (idx, st') \<Rightarrow> add_output_line (scanf_line idx) st')
      else if length tokens \<ge> 3 \<and> tokens ! 1 = ''='' then
        if \<not> is_identifier (tokens ! 0) then Inl (Fatal ''Left side must be a variable'')
        else (case find_or_add_var (tokens ! 0) st of
                Inl e \<Rightarrow> Inl e
              | Inr (var_idx, st') \<Rightarrow>
                  (case expr_loop (drop 2 tokens) (''    v'' @ dec var_idx @ '' = '') st' of
                     Inl e \<Rightarrow> Inl e
                   | Inr (output, st'') \<Rightarrow> add_output_line (output @ '';'') st''))
      else Inl (Fatal ''Invalid statement''))"

definition compile_line :: "string \<Rightarrow> state \<Rightarrow> error + state" where
  "compile_line line st =
     (if length line = 0 then Inr st
      else (let tokens = tokenize line in
            if length tokens = 0 then Inr st
            else compile_tokens tokens st))"

subsection \<open>\<open>main\<close>: reading the source, writing the program\<close>

text \<open>\<open>fgets(line, n, in)\<close> on the unread rest of the file: at most \<open>n - 1\<close>
  characters, up to and including the first newline; \<open>None\<close> at the end of the file.\<close>

fun fgets_buf :: "nat \<Rightarrow> string \<Rightarrow> string \<times> string" where
  "fgets_buf 0 inp = ([], inp)"
| "fgets_buf (Suc k) [] = ([], [])"
| "fgets_buf (Suc k) (c # cs) =
     (if c = newline then ([c], cs)
      else (case fgets_buf k cs of (l, r) \<Rightarrow> (c # l, r)))"

definition fgets :: "nat \<Rightarrow> string \<Rightarrow> (string \<times> string) option" where
  "fgets n inp = (if inp = [] then None else Some (fgets_buf (n - 1) inp))"

text \<open>\<open>line[strcspn(line, "\n")] = 0\<close>: the C string left in the buffer ends at the
  first newline, or at the first NUL byte that was read from the file.\<close>

fun chomp :: "string \<Rightarrow> string" where
  "chomp [] = []"
| "chomp (c # cs) = (if c = newline \<or> c = NUL then [] else c # chomp cs)"

lemma fgets_buf_length:
  "fgets_buf k inp = (l, r) \<Longrightarrow> 0 < k \<Longrightarrow> inp \<noteq> [] \<Longrightarrow> length r < length inp"
proof (induction k inp arbitrary: l r rule: fgets_buf.induct)
  case (1 inp)
  then show ?case by simp
next
  case (2 k)
  then show ?case by simp
next
  case (3 k c cs)
  show ?case
  proof (cases "c = newline")
    case True
    with "3.prems" show ?thesis by simp
  next
    case False
    obtain l' r' where s: "fgets_buf k cs = (l', r')"
      by (cases "fgets_buf k cs")
    have "length r' \<le> length cs"
    proof (cases "0 < k \<and> cs \<noteq> []")
      case True
      with "3.IH" [OF False s] show ?thesis by simp
    next
      case False
      with s show ?thesis by (cases k) auto
    qed
    moreover from "3.prems" False s have "r = r'" by simp
    ultimately show ?thesis by simp
  qed
qed

lemma fgets_length: "fgets MAX_LINE inp = Some (l, r) \<Longrightarrow> length r < length inp"
  by (auto simp: fgets_def MAX_LINE_def split: if_splits intro: fgets_buf_length)

text \<open>The loop \<open>while (fgets(line, sizeof(line), in))\<close>.\<close>

function main_loop :: "string \<Rightarrow> state \<Rightarrow> error + state" where
  "main_loop inp st =
     (case fgets MAX_LINE inp of
        None \<Rightarrow> Inr st
      | Some (line, rest) \<Rightarrow>
          (let p = skip_space (chomp line) in
           if p = [] \<or> hd p = CHR ''#'' then main_loop rest st
           else (case compile_line p st of
                   Inl e \<Rightarrow> Inl e
                 | Inr st' \<Rightarrow> main_loop rest st')))"
  by pat_completeness auto
termination
  by (relation "measure (\<lambda>(inp, st). length inp)") (auto simp: fgets_length)

declare main_loop.simps [simp del]

text \<open>The declaration loop \<open>for (i = 0; i < var_count; i++)\<close>.\<close>

function decl_loop :: "nat \<Rightarrow> nat \<Rightarrow> string" where
  "decl_loop i n =
     (if i < n
      then ''v'' @ dec i @ '' = 0'' @ (if i < n - 1 then '', '' else []) @ decl_loop (Suc i) n
      else [])"
  by pat_completeness auto
termination
  by (relation "measure (\<lambda>(i, n). n - i)") auto

declare decl_loop.simps [simp del]

text \<open>The loop that writes \<open>output_lines[0 .. output_count - 1]\<close>.\<close>

fun write_lines :: "string list \<Rightarrow> string" where
  "write_lines [] = []"
| "write_lines (l # ls) = l @ [newline] @ write_lines ls"

definition write_program :: "state \<Rightarrow> string" where
  "write_program st =
     ''#include <stdio.h>'' @ [newline, newline] @
     ''int main() {'' @ [newline] @
     (if var_count st > 0
      then ''    long long '' @ decl_loop 0 (var_count st) @ '';'' @ [newline]
      else []) @
     write_lines (output_lines st) @
     ''    return 0;'' @ [newline] @
     ''}'' @ [newline]"

text \<open>\<open>main\<close> from the contents of the opened source file to the contents of the
  generated C file; a fatal error leaves before anything is written. The use of the
  file names and the call of the C compiler are outside the model.\<close>

definition kalipso_main :: "string \<Rightarrow> error + string" where
  "kalipso_main inp =
     (case main_loop inp init_state of
        Inl e \<Rightarrow> Inl e
      | Inr st \<Rightarrow> Inr (write_program st))"

section \<open>Describing the symbol table and the generated text\<close>

text \<open>The entry \<open>find_or_add_var\<close> writes for a new name.\<close>

definition mk_var :: "string \<Rightarrow> Variable" where
  "mk_var n = \<lparr>name = n, used = 1\<rparr>"

text \<open>The names of the table, in slot order.\<close>

definition names :: "state \<Rightarrow> string list" where
  "names st = map name (vars st)"

text \<open>The slot of a name in a table: the number of entries before its first
  occurrence.\<close>

fun slot_of :: "string list \<Rightarrow> string \<Rightarrow> nat" where
  "slot_of [] n = 0"
| "slot_of (x # xs) n = (if x = n then 0 else Suc (slot_of xs n))"

text \<open>The names that a sequence of resolutions \<open>ns\<close> adds to the table \<open>tab\<close>: those
  not yet in it, each once, in the order of their first occurrence.\<close>

fun new_names :: "string list \<Rightarrow> string list \<Rightarrow> string list" where
  "new_names tab [] = []"
| "new_names tab (n # ns) =
     (if n \<in> set tab then new_names tab ns else n # new_names (tab @ [n]) ns)"

text \<open>What a token of an expression becomes: a reference to its slot when it is an
  identifier, itself otherwise.\<close>

definition subst :: "string list \<Rightarrow> string \<Rightarrow> string" where
  "subst tab t = (if is_identifier t then ''v'' @ dec (slot_of tab t) else t)"

text \<open>Texts joined by single spaces.\<close>

fun join_space :: "string list \<Rightarrow> string" where
  "join_space [] = []"
| "join_space [t] = t"
| "join_space (t # ts) = t @ '' '' @ join_space ts"

text \<open>A table filled to its capacity, with the names \<open>v0\<close>, ..., \<open>v255\<close>.\<close>

definition full_table :: state where
  "full_table = \<lparr>vars = map (\<lambda>k. mk_var (''v'' @ dec k)) [0..<256], output_lines = []\<rparr>"

text \<open>The names a statement resolves, in the order in which \<open>compile_line\<close> resolves
  them: the identifiers among the arguments of \<open>print\<close>, the target of \<open>input\<close>, the
  left-hand side of an assignment followed by the identifiers of its right-hand side.\<close>

definition stmt_refs :: "string list \<Rightarrow> string list" where
  "stmt_refs tokens =
     (if tokens ! 0 = ''print'' \<or> tokens ! 0 = ''input'' then filter is_identifier (drop 1 tokens)
      else tokens ! 0 # filter is_identifier (drop 2 tokens))"

text \<open>The line generated for a statement, with the slots of the table \<open>tab\<close>.\<close>

definition stmt_text :: "string list \<Rightarrow> string list \<Rightarrow> string" where
  "stmt_text tab tokens =
     (if tokens ! 0 = ''print''
      then printf_prefix @ join_space (map (subst tab) (drop 1 tokens)) @ '');''
      else if tokens ! 0 = ''input'' then scanf_line (slot_of tab (tokens ! 1))
      else ''    v'' @ dec (slot_of tab (tokens ! 0)) @ '' = '' @
           join_space (map (subst tab) (drop 2 tokens)) @ '';'')"

text \<open>The tokens of a line as the specification describes them, without the bounds of
  the code: whitespace is skipped, a maximal run of letters, digits and underscores is
  one token, any other character is a token of its own.\<close>

definition word_char :: "char \<Rightarrow> bool" where
  "word_char c = (isalnum c \<or> c = CHR ''_'')"

function spec_tokens :: "string \<Rightarrow> string list" where
  "spec_tokens [] = []"
| "spec_tokens (c # cs) =
     (if isspace c then spec_tokens cs
      else if word_char c
      then (c # takeWhile word_char cs) # spec_tokens (dropWhile word_char cs)
      else [c] # spec_tokens cs)"
  by pat_completeness auto
termination
  by (relation "measure length") (auto simp: length_dropWhile_le less_Suc_eq_le)

text \<open>The statements of a source file: the lines that \<open>main\<close> hands to
  \<open>compile_line\<close>, that is the lines as \<open>fgets\<close> delivers them, cut at the newline,
  without their leading whitespace, blank lines and \<open>#\<close> comments left out.\<close>

function statements :: "string \<Rightarrow> string list" where
  "statements inp =
     (case fgets MAX_LINE inp of
        None \<Rightarrow> []
      | Some (line, rest) \<Rightarrow>
          (let p = skip_space (chomp line) in
           if p = [] \<or> hd p = CHR ''#'' then statements rest
           else p # statements rest))"
  by pat_completeness auto
termination
  by (relation "measure length") (auto simp: fgets_length)

declare statements.simps [simp del]

text \<open>Compiling a list of statements in order, stopping at the first fatal error.\<close>

fun compile_all :: "string list \<Rightarrow> state \<Rightarrow> error + state" where
  "compile_all [] st = Inr st"
| "compile_all (p # ps) st =
     (case compile_line p st of Inl e \<Rightarrow> Inl e | Inr st' \<Rightarrow> compile_all ps st')"

text \<open>The variable names a source file refers to, in the order of the references.\<close>

definition program_refs :: "string \<Rightarrow> string list" where
  "program_refs inp = concat (map (\<lambda>p. stmt_refs (tokenize p)) (statements inp))"

text \<open>Texts joined by a comma and a space.\<close>

fun join_comma :: "string list \<Rightarrow> string" where
  "join_comma [] = []"
| "join_comma [t] = t"
| "join_comma (t # ts) = t @ '', '' @ join_comma ts"

text \<open>The combined declaration of \<open>n\<close> variables, absent when there is none.\<close>

definition declaration_line :: "nat \<Rightarrow> string" where
  "declaration_line n =
     (if n = 0 then []
      else ''    long long '' @ join_comma (map (\<lambda>k. ''v'' @ dec k @ '' = 0'') [0..<n]) @
           '';'' @ [newline])"

text \<open>The example program of the source's header comment, with a comment line, a blank
  line and an indented line added, and the state \<open>main\<close> reaches on it.\<close>

definition example_program :: string where
  "example_program =
     ''x = 5'' @ [newline] @ ''# the sum'' @ [newline] @ [newline] @
     ''  y = 10'' @ [newline] @ ''result = x + y'' @ [newline] @ ''print result'' @ [newline]"

definition example_state :: state where
  "example_state =
     \<lparr>vars = [mk_var ''x'', mk_var ''y'', mk_var ''result''],
      output_lines = [''    v0 = 5;'', ''    v1 = 10;'', ''    v2 = v0 + v1;'',
                      printf_prefix @ ''v2);'']\<rparr>"

section \<open>The symbol table\<close>

lemma find_var_slot:
  "find_var vs n i = (if n \<in> set (map name vs) then Some (i + slot_of (map name vs) n) else None)"
  by (induction vs arbitrary: i) auto

lemma slot_of_append:
  "slot_of (xs @ ys) n = (if n \<in> set xs then slot_of xs n else length xs + slot_of ys n)"
  by (induction xs) auto

lemma slot_of_less: "n \<in> set xs \<Longrightarrow> slot_of xs n < length xs"
  by (induction xs) auto

lemma slot_of_nth: "n \<in> set xs \<Longrightarrow> xs ! slot_of xs n = n"
  by (induction xs) auto

lemma slot_of_first: "n \<in> set xs \<Longrightarrow> n \<notin> set (take (slot_of xs n) xs)"
  by (induction xs) auto

lemma find_or_add_var_eq:
  "find_or_add_var n st =
     (if n \<in> set (names st) then Inr (slot_of (names st) n, st)
      else if MAX_VARS \<le> var_count st then Inl (Fatal ''Too many variables'')
      else Inr (var_count st, st\<lparr>vars := vars st @ [mk_var n]\<rparr>))"
  by (simp add: find_or_add_var_def find_var_slot names_def mk_var_def)

text \<open>
  Claim C2. Resolving a name that is already in the table returns its slot and leaves
  the table as it is, so resolving the same name again, also after other names have been
  resolved, yields the same slot; resolving a new name assigns the next slot, which is the
  current number of variables, and records it; resolving a new name when the table holds
  \<open>MAX_VARS = 256\<close> names is the fatal error \<open>Too many variables\<close>.
\<close>

theorem find_or_add_var_contract:
  "(n \<in> set (names st) \<longrightarrow>
      find_or_add_var n st = Inr (slot_of (names st) n, st) \<and>
      slot_of (names st) n < var_count st \<and>
      name (vars st ! slot_of (names st) n) = n)
   \<and> (find_or_add_var n st = Inr (i, st') \<longrightarrow>
      find_or_add_var n st' = Inr (i, st') \<and> i < var_count st' \<and> name (vars st' ! i) = n)
   \<and> (find_or_add_var n st = Inr (i, st') \<and> find_or_add_var m st' = Inr (j, st'') \<longrightarrow>
      find_or_add_var n st'' = Inr (i, st''))
   \<and> (n \<notin> set (names st) \<and> var_count st < MAX_VARS \<longrightarrow>
      find_or_add_var n st = Inr (var_count st, st\<lparr>vars := vars st @ [\<lparr>name = n, used = 1\<rparr>]\<rparr>))
   \<and> (n \<notin> set (names st) \<and> MAX_VARS \<le> var_count st \<longrightarrow>
      find_or_add_var n st = Inl (Fatal ''Too many variables''))
   \<and> MAX_VARS = 256"
proof (intro conjI impI)
  assume a: "n \<in> set (names st)"
  then show "find_or_add_var n st = Inr (slot_of (names st) n, st)"
    by (simp add: find_or_add_var_eq)
  from a show "slot_of (names st) n < var_count st"
    using slot_of_less [of n "names st"] by (simp add: names_def var_count_def)
  from a show "name (vars st ! slot_of (names st) n) = n"
    using slot_of_nth [of n "names st"] slot_of_less [of n "names st"]
    by (simp add: names_def)
next
  assume a: "find_or_add_var n st = Inr (i, st')"
  then have in': "n \<in> set (names st')" and i: "i = slot_of (names st') n"
    by (auto simp: find_or_add_var_eq names_def var_count_def mk_var_def slot_of_append
        split: if_splits)
  from in' i show "find_or_add_var n st' = Inr (i, st')"
    by (simp add: find_or_add_var_eq)
  from in' i show "i < var_count st'"
    using slot_of_less [of n "names st'"] by (simp add: names_def var_count_def)
  from in' i show "name (vars st' ! i) = n"
    using slot_of_nth [of n "names st'"] slot_of_less [of n "names st'"]
    by (simp add: names_def)
next
  assume "find_or_add_var n st = Inr (i, st') \<and> find_or_add_var m st' = Inr (j, st'')"
  then have a: "find_or_add_var n st = Inr (i, st')" and b: "find_or_add_var m st' = Inr (j, st'')"
    by simp_all
  from a have in': "n \<in> set (names st')" and i: "i = slot_of (names st') n"
    by (auto simp: find_or_add_var_eq names_def var_count_def mk_var_def slot_of_append
        split: if_splits)
  from b have "names st'' = names st' \<or> names st'' = names st' @ [m]"
    by (auto simp: find_or_add_var_eq names_def mk_var_def split: if_splits)
  with in' i have "n \<in> set (names st'')" and "slot_of (names st'') n = i"
    by (auto simp: slot_of_append)
  then show "find_or_add_var n st'' = Inr (i, st'')"
    by (simp add: find_or_add_var_eq)
next
  assume "n \<notin> set (names st) \<and> var_count st < MAX_VARS"
  then show "find_or_add_var n st =
      Inr (var_count st, st\<lparr>vars := vars st @ [\<lparr>name = n, used = 1\<rparr>]\<rparr>)"
    by (simp add: find_or_add_var_eq mk_var_def)
next
  assume "n \<notin> set (names st) \<and> MAX_VARS \<le> var_count st"
  then show "find_or_add_var n st = Inl (Fatal ''Too many variables'')"
    by (simp add: find_or_add_var_eq)
next
  show "MAX_VARS = 256" by (simp add: MAX_VARS_def)
qed


theorem find_or_add_var_contract_witness:
  "find_or_add_var ''x'' init_state = Inr (0, \<lparr>vars = [mk_var ''x''], output_lines = []\<rparr>)
   \<and> find_or_add_var ''x'' \<lparr>vars = [mk_var ''x''], output_lines = []\<rparr>
       = Inr (0, \<lparr>vars = [mk_var ''x''], output_lines = []\<rparr>)
   \<and> find_or_add_var ''y'' \<lparr>vars = [mk_var ''x''], output_lines = []\<rparr>
       = Inr (1, \<lparr>vars = [mk_var ''x'', mk_var ''y''], output_lines = []\<rparr>)
   \<and> find_or_add_var ''x'' \<lparr>vars = [mk_var ''x'', mk_var ''y''], output_lines = []\<rparr>
       = Inr (0, \<lparr>vars = [mk_var ''x'', mk_var ''y''], output_lines = []\<rparr>)
   \<and> var_count full_table = 256
   \<and> find_or_add_var ''x'' full_table = Inl (Fatal ''Too many variables'')"
proof -
  let ?s1 = "\<lparr>vars = [mk_var ''x''], output_lines = []\<rparr>"
  let ?s2 = "\<lparr>vars = [mk_var ''x'', mk_var ''y''], output_lines = []\<rparr>"
  note again = find_or_add_var_contract [THEN conjunct2, THEN conjunct1, rule_format]
  note stable = find_or_add_var_contract
    [THEN conjunct2, THEN conjunct2, THEN conjunct1, rule_format]
  note fresh = find_or_add_var_contract
    [THEN conjunct2, THEN conjunct2, THEN conjunct2, THEN conjunct1, rule_format]
  note full = find_or_add_var_contract
    [THEN conjunct2, THEN conjunct2, THEN conjunct2, THEN conjunct2, THEN conjunct1, rule_format]
  have new0: "''x'' \<notin> set (names init_state) \<and> var_count init_state < MAX_VARS"
    by (simp add: names_def init_state_def var_count_def MAX_VARS_def)
  have r0: "find_or_add_var ''x'' init_state = Inr (0, ?s1)"
    using fresh [OF new0] by (simp add: init_state_def var_count_def mk_var_def)
  have r1: "find_or_add_var ''x'' ?s1 = Inr (0, ?s1)"
    using again [OF r0] by simp
  have new1: "''y'' \<notin> set (names ?s1) \<and> var_count ?s1 < MAX_VARS"
    by (simp add: names_def var_count_def MAX_VARS_def mk_var_def)
  have r2: "find_or_add_var ''y'' ?s1 = Inr (1, ?s2)"
    using fresh [OF new1] by (simp add: var_count_def mk_var_def)
  have r3: "find_or_add_var ''x'' ?s2 = Inr (0, ?s2)"
    using stable [OF conjI [OF r0 r2]] .
  have cnt: "var_count full_table = 256"
    by (simp add: full_table_def var_count_def del: upt_rec_numeral)
  have "names full_table = map (\<lambda>k. ''v'' @ dec k) [0..<256]"
    by (simp add: full_table_def names_def mk_var_def comp_def del: upt_rec_numeral)
  then have "''x'' \<notin> set (names full_table)"
    by (auto simp del: upt_rec_numeral)
  with cnt have newf: "''x'' \<notin> set (names full_table) \<and> MAX_VARS \<le> var_count full_table"
    by (simp add: MAX_VARS_def)
  have r4: "find_or_add_var ''x'' full_table = Inl (Fatal ''Too many variables'')"
    using full [OF newf] .
  from r0 r1 r2 r3 cnt r4 show ?thesis by simp
qed

lemma join_space_Cons:
  "join_space (t # ts) = t @ (if ts = [] then [] else '' '' @ join_space ts)"
  by (cases ts) simp_all

lemma map_name_comp_mk_var [simp]: "map (name \<circ> mk_var) ns = ns"
  by (simp add: comp_def mk_var_def)

lemma map_name_mk_var [simp]: "map name (map mk_var ns) = ns"
  by (induction ns) (simp_all add: mk_var_def)

lemma expr_loop_eq:
  "expr_loop ts out st =
     (let new = new_names (names st) (filter is_identifier ts);
          tab = names st @ new
      in if new \<noteq> [] \<and> MAX_VARS < var_count st + length new
         then Inl (Fatal ''Too many variables'')
         else Inr (out @ join_space (map (subst tab) ts), st\<lparr>vars := vars st @ map mk_var new\<rparr>))"
proof (induction ts arbitrary: out st)
  case Nil
  then show ?case by simp
next
  case (Cons t ts)
  let ?sep = "\<lambda>o'. if ts \<noteq> [] then o' @ '' '' else o'"
  show ?case
  proof (cases "is_identifier t")
    case False
    then have step: "expr_loop (t # ts) out st = expr_loop ts (?sep (out @ t)) st"
      by simp
    from False show ?thesis unfolding step
      by (simp add: Cons.IH Let_def subst_def join_space_Cons)
  next
    case ident: True
    show ?thesis
    proof (cases "t \<in> set (names st)")
      case True
      with ident have step: "expr_loop (t # ts) out st
          = expr_loop ts (?sep (out @ ''v'' @ dec (slot_of (names st) t))) st"
        by (simp add: find_or_add_var_eq)
      from ident True show ?thesis unfolding step
        by (simp add: Cons.IH Let_def subst_def join_space_Cons slot_of_append)
    next
      case new: False
      show ?thesis
      proof (cases "MAX_VARS \<le> var_count st")
        case True
        with ident new show ?thesis
          by (simp add: find_or_add_var_eq Let_def)
      next
        case False
        let ?st1 = "st\<lparr>vars := vars st @ [mk_var t]\<rparr>"
        from False ident new have step: "expr_loop (t # ts) out st
            = expr_loop ts (?sep (out @ ''v'' @ dec (var_count st))) ?st1"
          by (simp add: find_or_add_var_eq)
        from ident new False show ?thesis unfolding step
          by (simp add: Cons.IH Let_def subst_def join_space_Cons slot_of_append
              names_def var_count_def mk_var_def)
      qed
    qed
  qed
qed


lemma add_output_line_eq:
  "add_output_line l st =
     (if MAX_LINES \<le> output_count st then Inl (Fatal ''Too many lines'')
      else Inr (st\<lparr>output_lines := output_lines st @ [l]\<rparr>))"
  by (simp add: add_output_line_def)

lemma compile_tokens_print:
  "compile_tokens (''print'' # args) st =
     (if args = [] then Inl (Fatal ''print needs an argument'')
      else let new = new_names (names st) (filter is_identifier args);
               tab = names st @ new
           in if new \<noteq> [] \<and> MAX_VARS < var_count st + length new
              then Inl (Fatal ''Too many variables'')
              else if MAX_LINES \<le> output_count st then Inl (Fatal ''Too many lines'')
              else Inr (st\<lparr>vars := vars st @ map mk_var new,
                          output_lines := output_lines st @
                            [printf_prefix @ join_space (map (subst tab) args) @ '');'']\<rparr>))"
proof (cases args)
  case Nil
  then show ?thesis by (simp add: compile_tokens_def)
next
  case (Cons a as)
  then have "compile_tokens (''print'' # args) st =
      (case expr_loop args printf_prefix st of
         Inl e \<Rightarrow> Inl e
       | Inr (output, st') \<Rightarrow> add_output_line (output @ '');'') st')"
    by (simp add: compile_tokens_def)
  with Cons show ?thesis
    by (simp add: expr_loop_eq add_output_line_eq Let_def output_count_def)
qed

lemma compile_tokens_input:
  "compile_tokens (''input'' # args) st =
     (if length args \<noteq> 1 then Inl (Fatal ''input needs one variable'')
      else if \<not> is_identifier (hd args) then Inl (Fatal ''input needs a variable name'')
      else let new = new_names (names st) [hd args];
               tab = names st @ new
           in if new \<noteq> [] \<and> MAX_VARS < var_count st + length new
              then Inl (Fatal ''Too many variables'')
              else if MAX_LINES \<le> output_count st then Inl (Fatal ''Too many lines'')
              else Inr (st\<lparr>vars := vars st @ map mk_var new,
                          output_lines := output_lines st @
                            [scanf_line (slot_of tab (hd args))]\<rparr>))"
proof (cases "length args = 1")
  case False
  then show ?thesis by (simp add: compile_tokens_def)
next
  case True
  then obtain a where a: "args = [a]"
    by (cases args) auto
  show ?thesis unfolding a
    by (simp add: compile_tokens_def find_or_add_var_eq add_output_line_eq Let_def
        output_count_def slot_of_append var_count_def names_def mk_var_def)
qed

lemma compile_tokens_assign:
  assumes "t \<noteq> ''print''" "t \<noteq> ''input''" "rhs \<noteq> []"
  shows "compile_tokens (t # ''='' # rhs) st =
     (if \<not> is_identifier t then Inl (Fatal ''Left side must be a variable'')
      else let new = new_names (names st) (t # filter is_identifier rhs);
               tab = names st @ new
           in if new \<noteq> [] \<and> MAX_VARS < var_count st + length new
              then Inl (Fatal ''Too many variables'')
              else if MAX_LINES \<le> output_count st then Inl (Fatal ''Too many lines'')
              else Inr (st\<lparr>vars := vars st @ map mk_var new,
                          output_lines := output_lines st @
                            [''    v'' @ dec (slot_of tab t) @ '' = '' @
                             join_space (map (subst tab) rhs) @ '';'']\<rparr>))"
proof -
  from assms(3) have len: "Suc 0 \<le> length rhs"
    by (cases rhs) simp_all
  show ?thesis
  proof (cases "is_identifier t")
  case False
  with assms len show ?thesis by (simp add: compile_tokens_def)
next
  case ident: True
  have d: "drop 2 (t # ''='' # rhs) = rhs"
    by (simp add: numeral_2_eq_2)
  from ident assms len have "compile_tokens (t # ''='' # rhs) st =
      (case find_or_add_var t st of
         Inl e \<Rightarrow> Inl e
       | Inr (var_idx, st') \<Rightarrow>
           (case expr_loop (drop 2 (t # ''='' # rhs)) (''    v'' @ dec var_idx @ '' = '') st' of
              Inl e \<Rightarrow> Inl e
            | Inr (output, st'') \<Rightarrow> add_output_line (output @ '';'') st''))"
    by (simp add: compile_tokens_def)
  then have step: "compile_tokens (t # ''='' # rhs) st =
      (case find_or_add_var t st of
         Inl e \<Rightarrow> Inl e
       | Inr (var_idx, st') \<Rightarrow>
           (case expr_loop rhs (''    v'' @ dec var_idx @ '' = '') st' of
              Inl e \<Rightarrow> Inl e
            | Inr (output, st'') \<Rightarrow> add_output_line (output @ '';'') st''))"
    unfolding d .
  show ?thesis
  proof (cases "t \<in> set (names st)")
    case True
    with ident show ?thesis unfolding step
      by (simp add: find_or_add_var_eq expr_loop_eq add_output_line_eq Let_def
          output_count_def slot_of_append)
  next
    case new: False
    show ?thesis
    proof (cases "MAX_VARS \<le> var_count st")
      case True
      with ident new show ?thesis unfolding step
        by (simp add: find_or_add_var_eq Let_def)
    next
      case False
      with ident new show ?thesis unfolding step
        by (simp add: find_or_add_var_eq expr_loop_eq add_output_line_eq Let_def
            output_count_def slot_of_append names_def var_count_def mk_var_def)
    qed
  qed
qed
qed

lemma compile_tokens_invalid:
  assumes "tokens \<noteq> []" "tokens ! 0 \<noteq> ''print''" "tokens ! 0 \<noteq> ''input''"
    and "length tokens < 3 \<or> tokens ! 1 \<noteq> ''=''"
  shows "compile_tokens tokens st = Inl (Fatal ''Invalid statement'')"
  using assms by (auto simp: compile_tokens_def)


section \<open>Statements\<close>


lemma dec_digit: "n < 10 \<Longrightarrow> dec n = [digit_char n]"
  by (simp add: dec.simps)

lemma set_new_names: "set tab \<union> set (new_names tab ns) = set tab \<union> set ns"
proof (induction ns arbitrary: tab)
  case Nil
  show ?case by simp
next
  case (Cons n ns)
  show ?case
  proof (cases "n \<in> set tab")
    case True
    with Cons.IH [of tab] show ?thesis by auto
  next
    case False
    with Cons.IH [of "tab @ [n]"] show ?thesis by auto
  qed
qed

lemma new_names_append:
  "new_names tab (xs @ ys) = new_names tab xs @ new_names (tab @ new_names tab xs) ys"
  by (induction xs arbitrary: tab) auto

lemmas eval_simps =
  names_def init_state_def var_count_def output_count_def MAX_VARS_def MAX_LINES_def
  subst_def isalpha_def isalnum_def isdigit_def isspace_def dec_digit digit_char_def
  mk_var_def Let_def






text \<open>
  Claim C7. A statement whose first token is \<open>input\<close>: when it does not have exactly
  two tokens it is the fatal error \<open>input needs one variable\<close>; when its second token
  is not an identifier it is the fatal error \<open>input needs a variable name\<close>; otherwise
  the identifier is resolved to a slot and the single line \<open>scanf("%lld", &v<slot>);\<close>
  is added to the output.
\<close>

theorem compile_input:
  "compile_tokens (''input'' # args) st =
     (if length args \<noteq> 1 then Inl (Fatal ''input needs one variable'')
      else if \<not> is_identifier (hd args) then Inl (Fatal ''input needs a variable name'')
      else let new = new_names (names st) [hd args];
               tab = names st @ new
           in if new \<noteq> [] \<and> MAX_VARS < var_count st + length new
              then Inl (Fatal ''Too many variables'')
              else if MAX_LINES \<le> output_count st then Inl (Fatal ''Too many lines'')
              else Inr (st\<lparr>vars := vars st @ map mk_var new,
                          output_lines := output_lines st @
                            [scanf_line (slot_of tab (hd args))]\<rparr>))
   \<and> scanf_line k = ''    scanf('' @ [CHR 0x22] @ ''%lld'' @ [CHR 0x22] @ '', &v'' @ dec k @ '');''"
proof
  show "scanf_line k = ''    scanf('' @ [CHR 0x22] @ ''%lld'' @ [CHR 0x22] @ '', &v'' @ dec k @ '');''"
    by (simp add: scanf_line_def dquote_def)
qed (rule compile_tokens_input)

theorem compile_input_witness:
  "compile_tokens [''input''] init_state = Inl (Fatal ''input needs one variable'')
   \<and> compile_tokens [''input'', ''a'', ''b''] init_state = Inl (Fatal ''input needs one variable'')
   \<and> compile_tokens [''input'', ''5''] init_state = Inl (Fatal ''input needs a variable name'')
   \<and> compile_tokens [''input'', ''y''] \<lparr>vars = [mk_var ''x''], output_lines = []\<rparr> =
       Inr \<lparr>vars = [mk_var ''x'', mk_var ''y''], output_lines = [scanf_line 1]\<rparr>"
  using compile_input [of "[]" init_state 0, THEN conjunct1]
    compile_input [of "[''a'', ''b'']" init_state 0, THEN conjunct1]
    compile_input [of "[''5'']" init_state 0, THEN conjunct1]
    compile_input [of "[''y'']" "\<lparr>vars = [mk_var ''x''], output_lines = []\<rparr>" 0, THEN conjunct1]
  by (simp add: eval_simps)


lemma name_mk_var [simp]: "name (mk_var n) = n"
  by (simp add: mk_var_def)

lemma names_update [simp]:
  "names (st\<lparr>vars := vs, output_lines := ls\<rparr>) = map name vs"
  by (simp add: names_def)

lemma compile_tokens_ok:
  assumes "tokens \<noteq> []" and "compile_tokens tokens st = Inr st'"
  shows "vars st' = vars st @ map mk_var (new_names (names st) (stmt_refs tokens)) \<and>
         output_lines st' = output_lines st @ [stmt_text (names st') tokens]"
proof -
  from assms(1) obtain t ts where tokens: "tokens = t # ts"
    by (cases tokens) auto
  show ?thesis
  proof (cases "t = ''print''")
    case True
    with assms(2) tokens show ?thesis
      by (auto simp: compile_tokens_print stmt_refs_def stmt_text_def Let_def names_def
          split: if_splits)
  next
    case np: False
    show ?thesis
    proof (cases "t = ''input''")
      case True
      from assms(2) tokens True have "length ts = 1" "is_identifier (hd ts)"
        by (auto simp: compile_tokens_input split: if_splits)
      then obtain a where ts: "ts = [a]" and a: "is_identifier a"
        by (cases ts) auto
      from assms(2) show ?thesis unfolding tokens True ts
        using a
        by (auto simp: compile_tokens_input stmt_refs_def stmt_text_def Let_def names_def
            split: if_splits)
    next
      case ni: False
      have shape: "3 \<le> length tokens \<and> tokens ! 1 = ''=''"
      proof (rule ccontr)
        assume "\<not> ?thesis"
        then have "length tokens < 3 \<or> tokens ! 1 \<noteq> ''=''" by auto
        with np ni tokens have "compile_tokens tokens st = Inl (Fatal ''Invalid statement'')"
          by (intro compile_tokens_invalid) auto
        with assms(2) show False by simp
      qed
      then obtain rhs where ts: "ts = ''='' # rhs" and rhs: "rhs \<noteq> []"
        using tokens by (cases ts; cases "tl ts") auto
      have d: "drop 2 (t # ''='' # rhs) = rhs"
        by (simp add: numeral_2_eq_2)
      from assms(2) np ni rhs show ?thesis unfolding tokens ts
        by (auto simp: compile_tokens_assign stmt_refs_def stmt_text_def Let_def names_def d
            split: if_splits)
    qed
  qed
qed


lemma tokenize_foo_bar: "tokenize ''foo bar'' = [''foo'', ''bar'']"
  by code_simp

lemma tokenize_x_print: "tokenize ''x = print'' = [''x'', ''='', ''print'']"
  by code_simp

text \<open>
  Claim C8. The first token is compared with \<open>print\<close> and \<open>input\<close> before the shape
  of an assignment is looked at: \<open>print = ...\<close> is compiled as a print statement whose
  first argument is the token \<open>=\<close>, and \<open>input = ...\<close> fails as an input statement.
  A non-empty token sequence that starts with neither word and is not of the shape
  \<open>t = ...\<close> with at least three tokens, such as the line \<open>foo bar\<close>, is the fatal
  error \<open>Invalid statement\<close>.
\<close>

theorem classification_order:
  "compile_tokens (''print'' # ''='' # rest) st =
     (let new = new_names (names st) (filter is_identifier rest);
          tab = names st @ new
      in if new \<noteq> [] \<and> MAX_VARS < var_count st + length new
         then Inl (Fatal ''Too many variables'')
         else if MAX_LINES \<le> output_count st then Inl (Fatal ''Too many lines'')
         else Inr (st\<lparr>vars := vars st @ map mk_var new,
                     output_lines := output_lines st @
                       [printf_prefix @ join_space (''='' # map (subst tab) rest) @ '');'']\<rparr>))
   \<and> compile_tokens (''input'' # ''='' # rest) st =
       Inl (Fatal (if rest = [] then ''input needs a variable name''
                   else ''input needs one variable''))
   \<and> (tokens \<noteq> [] \<and> tokens ! 0 \<noteq> ''print'' \<and> tokens ! 0 \<noteq> ''input'' \<and>
        (length tokens < 3 \<or> tokens ! 1 \<noteq> ''='') \<longrightarrow>
        compile_tokens tokens st = Inl (Fatal ''Invalid statement''))
   \<and> compile_line ''foo bar'' st = Inl (Fatal ''Invalid statement'')"
proof (intro conjI impI)
  have nid: "\<not> is_identifier ''=''"
    by (simp add: isalpha_def)
  then have eqs: "subst tab ''='' = ''=''" for tab
    by (simp only: subst_def if_False)
  from nid show "compile_tokens (''print'' # ''='' # rest) st =
     (let new = new_names (names st) (filter is_identifier rest);
          tab = names st @ new
      in if new \<noteq> [] \<and> MAX_VARS < var_count st + length new
         then Inl (Fatal ''Too many variables'')
         else if MAX_LINES \<le> output_count st then Inl (Fatal ''Too many lines'')
         else Inr (st\<lparr>vars := vars st @ map mk_var new,
                     output_lines := output_lines st @
                       [printf_prefix @ join_space (''='' # map (subst tab) rest) @ '');'']\<rparr>))"
    by (simp add: compile_tokens_print eqs Let_def isalpha_def)
  from nid show "compile_tokens (''input'' # ''='' # rest) st =
       Inl (Fatal (if rest = [] then ''input needs a variable name''
                   else ''input needs one variable''))"
    by (simp add: compile_tokens_input isalpha_def)
next
  assume "tokens \<noteq> [] \<and> tokens ! 0 \<noteq> ''print'' \<and> tokens ! 0 \<noteq> ''input'' \<and>
        (length tokens < 3 \<or> tokens ! 1 \<noteq> ''='')"
  then show "compile_tokens tokens st = Inl (Fatal ''Invalid statement'')"
    by (intro compile_tokens_invalid) simp_all
next
  have "compile_tokens [''foo'', ''bar''] st = Inl (Fatal ''Invalid statement'')"
    by (intro compile_tokens_invalid) simp_all
  then show "compile_line ''foo bar'' st = Inl (Fatal ''Invalid statement'')"
    by (simp add: compile_line_def tokenize_foo_bar)
qed

theorem classification_order_witness:
  "compile_tokens [''print'', ''='', ''5''] init_state =
     Inr \<lparr>vars = [], output_lines = [printf_prefix @ ''= 5);'']\<rparr>
   \<and> compile_tokens [''input'', ''='', ''5''] init_state = Inl (Fatal ''input needs one variable'')
   \<and> compile_tokens [''foo'', ''bar''] init_state = Inl (Fatal ''Invalid statement'')
   \<and> compile_tokens [''x'', ''+'', ''1''] init_state = Inl (Fatal ''Invalid statement'')
   \<and> compile_line ''foo bar'' init_state = Inl (Fatal ''Invalid statement'')"
proof -
  note c = classification_order [of "[''5'']" init_state]
  have h1: "[''foo'', ''bar''] \<noteq> [] \<and> [''foo'', ''bar''] ! 0 \<noteq> ''print'' \<and>
      [''foo'', ''bar''] ! 0 \<noteq> ''input'' \<and>
      (length [''foo'', ''bar''] < 3 \<or> [''foo'', ''bar''] ! 1 \<noteq> ''='')"
    by simp
  have h2: "[''x'', ''+'', ''1''] \<noteq> [] \<and> [''x'', ''+'', ''1''] ! 0 \<noteq> ''print'' \<and>
      [''x'', ''+'', ''1''] ! 0 \<noteq> ''input'' \<and>
      (length [''x'', ''+'', ''1''] < 3 \<or> [''x'', ''+'', ''1''] ! 1 \<noteq> ''='')"
    by simp
  note inv = c [THEN conjunct2, THEN conjunct2, THEN conjunct1, rule_format]
  from c [THEN conjunct1] c [THEN conjunct2, THEN conjunct1] inv [OF h1] inv [OF h2]
    c [THEN conjunct2, THEN conjunct2, THEN conjunct2]
  show ?thesis
    by (simp add: eval_simps)
qed

text \<open>
  Claim C10. \<open>print\<close> and \<open>input\<close> are reserved in the first position only: they
  pass the identifier test, and where one of them stands among the arguments of
  \<open>print\<close> or on the right-hand side of an assignment that compiles, it is in the symbol
  table afterwards and the generated line refers to its slot; \<open>x = print\<close> compiles
  to \<open>v0 = v1;\<close>.
\<close>

theorem keywords_not_reserved:
  "is_identifier ''print'' \<and> is_identifier ''input''
   \<and> ((kw = ''print'' \<or> kw = ''input'') \<and> kw \<in> set args \<and>
        compile_tokens (''print'' # args) st = Inr st' \<longrightarrow>
        kw \<in> set (names st') \<and>
        find_or_add_var kw st' = Inr (slot_of (names st') kw, st') \<and>
        output_lines st' = output_lines st @
          [printf_prefix @
           join_space (map (\<lambda>t. if t = kw then ''v'' @ dec (slot_of (names st') kw)
                                else subst (names st') t) args) @ '');''])
   \<and> ((kw = ''print'' \<or> kw = ''input'') \<and> kw \<in> set rhs \<and> t \<noteq> ''print'' \<and> t \<noteq> ''input'' \<and>
        compile_tokens (t # ''='' # rhs) st = Inr st' \<longrightarrow>
        kw \<in> set (names st') \<and>
        find_or_add_var kw st' = Inr (slot_of (names st') kw, st') \<and>
        output_lines st' = output_lines st @
          [''    v'' @ dec (slot_of (names st') t) @ '' = '' @
           join_space (map (\<lambda>t. if t = kw then ''v'' @ dec (slot_of (names st') kw)
                                else subst (names st') t) rhs) @ '';''])
   \<and> compile_line ''x = print'' init_state =
       Inr \<lparr>vars = [mk_var ''x'', mk_var ''print''], output_lines = [''    v0 = v1;'']\<rparr>"
proof -
  have idp: "is_identifier ''print''" and idi: "is_identifier ''input''"
    by (simp_all add: isalpha_def isalnum_def)
  have same: "map (\<lambda>t. if t = kw then ''v'' @ dec (slot_of tab kw) else subst tab t) ts
      = map (subst tab) ts" if "is_identifier kw" for kw tab ts
    using that by (simp add: subst_def)
  have p: "kw \<in> set (names st') \<and>
        find_or_add_var kw st' = Inr (slot_of (names st') kw, st') \<and>
        output_lines st' = output_lines st @
          [printf_prefix @
           join_space (map (\<lambda>t. if t = kw then ''v'' @ dec (slot_of (names st') kw)
                                else subst (names st') t) args) @ '');'']"
    if kw: "kw = ''print'' \<or> kw = ''input''" and mem: "kw \<in> set args"
      and ok: "compile_tokens (''print'' # args) st = Inr st'"
  proof -
    from kw idp idi have id: "is_identifier kw" by auto
    from compile_tokens_ok [OF _ ok]
    have v: "vars st' = vars st @ map mk_var (new_names (names st) (filter is_identifier args))"
      and o: "output_lines st' = output_lines st @ [stmt_text (names st') (''print'' # args)]"
      by (simp_all add: stmt_refs_def)
    from v have "set (names st') = set (names st) \<union> set (filter is_identifier args)"
      using set_new_names [of "names st" "filter is_identifier args"]
      by (simp add: names_def)
    with id mem have in': "kw \<in> set (names st')" by simp
    then have "find_or_add_var kw st' = Inr (slot_of (names st') kw, st')"
      by (simp add: find_or_add_var_eq)
    with in' o show ?thesis
      by (simp add: stmt_text_def same [OF id])
  qed
  have a: "kw \<in> set (names st') \<and>
        find_or_add_var kw st' = Inr (slot_of (names st') kw, st') \<and>
        output_lines st' = output_lines st @
          [''    v'' @ dec (slot_of (names st') t) @ '' = '' @
           join_space (map (\<lambda>t. if t = kw then ''v'' @ dec (slot_of (names st') kw)
                                else subst (names st') t) rhs) @ '';'']"
    if kw: "kw = ''print'' \<or> kw = ''input''" and mem: "kw \<in> set rhs"
      and t: "t \<noteq> ''print''" "t \<noteq> ''input''"
      and ok: "compile_tokens (t # ''='' # rhs) st = Inr st'"
  proof -
    from kw idp idi have id: "is_identifier kw" by auto
    have d: "drop 2 (t # ''='' # rhs) = rhs"
      by (simp add: numeral_2_eq_2)
    from compile_tokens_ok [OF _ ok] t
    have v: "vars st' = vars st @ map mk_var (new_names (names st) (t # filter is_identifier rhs))"
      and o: "output_lines st' = output_lines st @ [stmt_text (names st') (t # ''='' # rhs)]"
      by (simp_all add: stmt_refs_def d)
    from v have "set (names st') = set (names st) \<union> set (t # filter is_identifier rhs)"
      using set_new_names [of "names st" "t # filter is_identifier rhs"]
      by (simp add: names_def)
    with id mem have in': "kw \<in> set (names st')" by simp
    then have "find_or_add_var kw st' = Inr (slot_of (names st') kw, st')"
      by (simp add: find_or_add_var_eq)
    with in' o t show ?thesis
      by (simp add: stmt_text_def same [OF id] d)
  qed
  have e: "compile_line ''x = print'' init_state =
       Inr \<lparr>vars = [mk_var ''x'', mk_var ''print''], output_lines = [''    v0 = v1;'']\<rparr>"
    using compile_tokens_assign [of "''x''" "[''print'']" init_state]
    by (simp add: compile_line_def tokenize_x_print eval_simps)
  from idp idi p a e show ?thesis by blast
qed


theorem keywords_not_reserved_witness:
  "compile_tokens [''print'', ''print''] init_state =
     Inr \<lparr>vars = [mk_var ''print''], output_lines = [printf_prefix @ ''v0);'']\<rparr>
   \<and> find_or_add_var ''print'' \<lparr>vars = [mk_var ''print''],
         output_lines = [printf_prefix @ ''v0);'']\<rparr> =
       Inr (0, \<lparr>vars = [mk_var ''print''], output_lines = [printf_prefix @ ''v0);'']\<rparr>)
   \<and> compile_tokens [''x'', ''='', ''input''] init_state =
       Inr \<lparr>vars = [mk_var ''x'', mk_var ''input''], output_lines = [''    v0 = v1;'']\<rparr>
   \<and> find_or_add_var ''input'' \<lparr>vars = [mk_var ''x'', mk_var ''input''],
         output_lines = [''    v0 = v1;'']\<rparr> =
       Inr (1, \<lparr>vars = [mk_var ''x'', mk_var ''input''], output_lines = [''    v0 = v1;'']\<rparr>)"
proof -
  let ?s1 = "\<lparr>vars = [mk_var ''print''], output_lines = [printf_prefix @ ''v0);'']\<rparr>"
  let ?s2 = "\<lparr>vars = [mk_var ''x'', mk_var ''input''], output_lines = [''    v0 = v1;'']\<rparr>"
  have ok1: "compile_tokens [''print'', ''print''] init_state = Inr ?s1"
    by (simp add: compile_tokens_print eval_simps)
  have ok2: "compile_tokens [''x'', ''='', ''input''] init_state = Inr ?s2"
    using compile_tokens_assign [of "''x''" "[''input'']" init_state]
    by (simp add: eval_simps)
  have h1: "(''print'' = ''print'' \<or> ''print'' = ''input'') \<and> ''print'' \<in> set [''print''] \<and>
      compile_tokens (''print'' # [''print'']) init_state = Inr ?s1"
    using ok1 by simp
  have h2: "(''input'' = ''print'' \<or> ''input'' = ''input'') \<and> ''input'' \<in> set [''input''] \<and>
      ''x'' \<noteq> ''print'' \<and> ''x'' \<noteq> ''input'' \<and>
      compile_tokens (''x'' # ''='' # [''input'']) init_state = Inr ?s2"
    using ok2 by simp
  note k = keywords_not_reserved
  from k [THEN conjunct2, THEN conjunct2, THEN conjunct1, rule_format, OF h1]
  have r1: "find_or_add_var ''print'' ?s1 = Inr (0, ?s1)"
    by (simp add: names_def mk_var_def)
  from k [THEN conjunct2, THEN conjunct2, THEN conjunct2, THEN conjunct1, rule_format, OF h2]
  have r2: "find_or_add_var ''input'' ?s2 = Inr (1, ?s2)"
    by (simp add: names_def mk_var_def)
  from ok1 r1 ok2 r2 show ?thesis by simp
qed



section \<open>The tokenizer\<close>

lemma word_char_not_space: "word_char c \<Longrightarrow> \<not> isspace c"
  by (auto simp: word_char_def isalnum_def isalpha_def isdigit_def isspace_def Let_def)

lemma scan_word_split:
  "scan_word p i = (w, r) \<Longrightarrow> p = w @ r \<and> list_all word_char w \<and> (i \<le> 63 \<longrightarrow> i + length w \<le> 63)"
proof (induction p arbitrary: i w r)
  case Nil
  then show ?case by simp
next
  case (Cons c cs)
  show ?case
  proof (cases "(isalnum c \<or> c = CHR ''_'') \<and> i < 63")
    case True
    obtain w' r' where s: "scan_word cs (Suc i) = (w', r')"
      by (cases "scan_word cs (Suc i)")
    from Cons.prems True s have "w = c # w'" "r = r'" by simp_all
    with Cons.IH [OF s] True show ?thesis
      by (auto simp: word_char_def)
  next
    case False
    with Cons.prems show ?thesis by auto
  qed
qed

lemma next_token_split:
  assumes "p \<noteq> []" "\<not> isspace (hd p)" "next_token p = (tok, p2)"
  shows "p = tok @ p2 \<and> tok \<noteq> [] \<and> length tok \<le> 63 \<and> list_all (\<lambda>c. \<not> isspace c) tok"
proof -
  from assms(1) obtain c cs where p: "p = c # cs" by (cases p) auto
  show ?thesis
  proof (cases "isalnum c \<or> c = CHR ''_''")
    case True
    obtain w' r' where s: "scan_word cs (Suc 0) = (w', r')"
      by (cases "scan_word cs (Suc 0)")
    from assms(3) p True s have t: "tok = c # w'" "p2 = r'" by auto
    from scan_word_split [OF s] have "cs = w' @ r'" "list_all word_char w'" "Suc (length w') \<le> 63"
      by simp_all
    with t p True show ?thesis
      using word_char_not_space by (auto simp: list_all_iff word_char_def)
  next
    case False
    with assms p show ?thesis by auto
  qed
qed

lemma skip_space_filter:
  "filter (\<lambda>c. \<not> isspace c) (skip_space p) = filter (\<lambda>c. \<not> isspace c) p"
  by (induction p) auto

lemma skip_space_hd: "skip_space p \<noteq> [] \<Longrightarrow> \<not> isspace (hd (skip_space p))"
  by (induction p) auto

lemma tokenize_loop_bounds:
  "\<exists>more. tokenize_loop p toks = toks @ more \<and>
     (length toks \<le> MAX_TOKENS \<longrightarrow> length (toks @ more) \<le> MAX_TOKENS) \<and>
     list_all (\<lambda>t. t \<noteq> [] \<and> length t \<le> 63 \<and> list_all (\<lambda>c. \<not> isspace c) t) more \<and>
     prefix (concat more) (filter (\<lambda>c. \<not> isspace c) p) \<and>
     (length (toks @ more) < MAX_TOKENS \<longrightarrow> concat more = filter (\<lambda>c. \<not> isspace c) p)"
proof (induction p toks rule: tokenize_loop.induct)
  case (1 p toks)
  let ?ns = "filter (\<lambda>c. \<not> isspace c)"
  show ?case
  proof (cases "p \<noteq> [] \<and> length toks < MAX_TOKENS")
    case False
    then have "tokenize_loop p toks = toks"
      by (auto simp: tokenize_loop.simps [of p toks])
    with False show ?thesis by auto
  next
    case go: True
    show ?thesis
    proof (cases "skip_space p = []")
      case True
      with go have "tokenize_loop p toks = toks"
        by (simp add: tokenize_loop.simps [of p toks])
      moreover from True have "?ns p = []"
        using skip_space_filter [of p] by simp
      ultimately show ?thesis using go by auto
    next
      case False
      obtain tok p2 where nt: "next_token (skip_space p) = (tok, p2)"
        by (cases "next_token (skip_space p)")
      from go False nt have step: "tokenize_loop p toks = tokenize_loop p2 (toks @ [tok])"
        by (simp add: tokenize_loop.simps [of p toks])
      from next_token_split [OF False skip_space_hd [OF False] nt]
      have sp: "skip_space p = tok @ p2" and tok: "tok \<noteq> []" "length tok \<le> 63"
        "list_all (\<lambda>c. \<not> isspace c) tok"
        by simp_all
      from sp tok(3) have ns: "?ns p = tok @ ?ns p2"
        using skip_space_filter [of p] by (simp add: list_all_iff filter_id_conv)
      from "1.IH" [OF go refl False nt [symmetric]]
      obtain more where m: "tokenize_loop p2 (toks @ [tok]) = (toks @ [tok]) @ more"
        "length (toks @ [tok]) \<le> MAX_TOKENS \<longrightarrow> length ((toks @ [tok]) @ more) \<le> MAX_TOKENS"
        "list_all (\<lambda>t. t \<noteq> [] \<and> length t \<le> 63 \<and> list_all (\<lambda>c. \<not> isspace c) t) more"
        "prefix (concat more) (?ns p2)"
        "length ((toks @ [tok]) @ more) < MAX_TOKENS \<longrightarrow> concat more = ?ns p2"
        by blast
      show ?thesis
      proof (intro exI [of _ "tok # more"] conjI)
        show "tokenize_loop p toks = toks @ tok # more"
          using step m(1) by simp
        show "length toks \<le> MAX_TOKENS \<longrightarrow> length (toks @ tok # more) \<le> MAX_TOKENS"
          using m(2) go by simp
        show "list_all (\<lambda>t. t \<noteq> [] \<and> length t \<le> 63 \<and> list_all (\<lambda>c. \<not> isspace c) t) (tok # more)"
          using m(3) tok by simp
        show "prefix (concat (tok # more)) (?ns p)"
          using m(4) ns by simp
        show "length (toks @ tok # more) < MAX_TOKENS \<longrightarrow> concat (tok # more) = ?ns p"
          using m(5) ns by simp
      qed
    qed
  qed
qed


lemma scan_word_run:
  "i + length (takeWhile word_char p) \<le> 63 \<Longrightarrow>
   scan_word p i = (takeWhile word_char p, dropWhile word_char p)"
proof (induction p arbitrary: i)
  case Nil
  show ?case by simp
next
  case (Cons c cs)
  show ?case
  proof (cases "word_char c")
    case True
    with Cons.prems have i: "i < 63" and "Suc i + length (takeWhile word_char cs) \<le> 63"
      by simp_all
    from Cons.IH [OF this(2)]
    have "scan_word cs (Suc i) = (takeWhile word_char cs, dropWhile word_char cs)" .
    moreover from True have "isalnum c \<or> c = CHR ''_''"
      by (simp add: word_char_def)
    ultimately show ?thesis using True i by simp
  next
    case False
    then show ?thesis by (simp add: word_char_def)
  qed
qed

lemma spec_tokens_skip: "spec_tokens (skip_space p) = spec_tokens p"
  by (induction p) auto

lemma tokenize_loop_spec:
  "list_all (\<lambda>t. length t \<le> 63) (spec_tokens p) \<Longrightarrow>
   length toks + length (spec_tokens p) \<le> MAX_TOKENS \<Longrightarrow>
   tokenize_loop p toks = toks @ spec_tokens p"
proof (induction p toks rule: tokenize_loop.induct)
  case (1 p toks)
  show ?case
  proof (cases "p \<noteq> [] \<and> length toks < MAX_TOKENS")
    case False
    then have "tokenize_loop p toks = toks"
      by (auto simp: tokenize_loop.simps [of p toks])
    moreover have "spec_tokens p = []"
    proof (cases "p = []")
      case True
      then show ?thesis by simp
    next
      case False
      with \<open>\<not> (p \<noteq> [] \<and> length toks < MAX_TOKENS)\<close> "1.prems"(2)
      have "length (spec_tokens p) = 0" by arith
      then show ?thesis by simp
    qed
    ultimately show ?thesis by simp
  next
    case go: True
    show ?thesis
    proof (cases "skip_space p = []")
      case True
      with go have "tokenize_loop p toks = toks"
        by (simp add: tokenize_loop.simps [of p toks])
      moreover from True have "spec_tokens p = []"
        using spec_tokens_skip [of p] by simp
      ultimately show ?thesis by simp
    next
      case False
      then obtain c cs where sp: "skip_space p = c # cs"
        by (cases "skip_space p") auto
      from skip_space_hd [OF False] sp have ns: "\<not> isspace c" by simp
      define tok where "tok = (if word_char c then c # takeWhile word_char cs else [c])"
      define p2 where "p2 = (if word_char c then dropWhile word_char cs else cs)"
      have "spec_tokens p = spec_tokens (c # cs)"
        using spec_tokens_skip [of p] by (simp only: sp)
      with ns have spec: "spec_tokens p = tok # spec_tokens p2"
        by (simp add: tok_def p2_def)
      with "1.prems"(1) have len: "length tok \<le> 63" by simp
      have nt: "next_token (skip_space p) = (tok, p2)"
      proof (cases "word_char c")
        case True
        with len have "0 + length (takeWhile word_char (c # cs)) \<le> 63"
          by (simp add: tok_def)
        from scan_word_run [OF this] True show ?thesis
          by (simp add: sp tok_def p2_def word_char_def)
      next
        case False
        then show ?thesis by (simp add: sp tok_def p2_def word_char_def)
      qed
      from go False nt have step: "tokenize_loop p toks = tokenize_loop p2 (toks @ [tok])"
        by (simp add: tokenize_loop.simps [of p toks])
      from "1.prems" spec have "list_all (\<lambda>t. length t \<le> 63) (spec_tokens p2)"
        and "length (toks @ [tok]) + length (spec_tokens p2) \<le> MAX_TOKENS"
        by simp_all
      from "1.IH" [OF go refl False nt [symmetric] this]
      show ?thesis using step spec by simp
    qed
  qed
qed


lemma tokenize_x_5: "tokenize ''x = 5'' = [''x'', ''='', ''5'']"
  by code_simp

lemma tokenize_result: "tokenize ''result = x + y'' = [''result'', ''='', ''x'', ''+'', ''y'']"
  by code_simp




text \<open>
  Claim C4 says that every maximal run of letters, digits and underscores is one token and
  every other non-whitespace character is a token. A run of 64 letters is two tokens, and
  of 101 operator characters only 100 become tokens.
\<close>

theorem tokenize_splits_long_run:
  "tokenize (replicate 64 (CHR ''a'')) = [replicate 63 (CHR ''a''), ''a'']
   \<and> spec_tokens (replicate 64 (CHR ''a'')) = [replicate 64 (CHR ''a'')]
   \<and> length (tokenize (replicate 101 (CHR ''+''))) = 100
   \<and> length (spec_tokens (replicate 101 (CHR ''+''))) = 101"
  by code_simp

text \<open>
  Claim C4, amended. For every line whose maximal runs of letters, digits and underscores
  have at most 63 characters and which holds at most 100 tokens, the tokenizer returns the
  tokens of the specification: it scans from the left, skips whitespace, takes each
  maximal run of letters, digits and underscores as one token and every other
  non-whitespace character as a token of its own. For every line, no token is empty or
  contains whitespace. \<open>x = 5\<close> gives \<open>x\<close>, \<open>=\<close>, \<open>5\<close>, and \<open>result = x + y\<close>
  gives \<open>result\<close>, \<open>=\<close>, \<open>x\<close>, \<open>+\<close>, \<open>y\<close>.
\<close>

theorem tokenize_refines_spec:
  "(list_all (\<lambda>t. length t \<le> 63) (spec_tokens line) \<and> length (spec_tokens line) \<le> MAX_TOKENS \<longrightarrow>
      tokenize line = spec_tokens line)
   \<and> list_all (\<lambda>t. t \<noteq> [] \<and> list_all (\<lambda>c. \<not> isspace c) t) (tokenize line)
   \<and> tokenize ''x = 5'' = [''x'', ''='', ''5'']
   \<and> tokenize ''result = x + y'' = [''result'', ''='', ''x'', ''+'', ''y'']"
proof (intro conjI impI)
  assume "list_all (\<lambda>t. length t \<le> 63) (spec_tokens line) \<and>
    length (spec_tokens line) \<le> MAX_TOKENS"
  then show "tokenize line = spec_tokens line"
    using tokenize_loop_spec [of line "[]"] by (simp add: tokenize_def)
next
  from tokenize_loop_bounds [of line "[]"]
  show "list_all (\<lambda>t. t \<noteq> [] \<and> list_all (\<lambda>c. \<not> isspace c) t) (tokenize line)"
    by (auto simp: tokenize_def list_all_iff)
qed (rule tokenize_x_5 tokenize_result)+

theorem tokenize_refines_spec_witness:
  "list_all (\<lambda>t. length t \<le> 63) (spec_tokens ''a_1=(b+22) *c'')
   \<and> length (spec_tokens ''a_1=(b+22) *c'') \<le> MAX_TOKENS
   \<and> tokenize ''a_1=(b+22) *c'' = [''a_1'', ''='', ''('', ''b'', ''+'', ''22'', '')'', ''*'', ''c'']"
proof -
  have s: "spec_tokens ''a_1=(b+22) *c'' =
      [''a_1'', ''='', ''('', ''b'', ''+'', ''22'', '')'', ''*'', ''c'']"
    by code_simp
  then have h: "list_all (\<lambda>t. length t \<le> 63) (spec_tokens ''a_1=(b+22) *c'') \<and>
      length (spec_tokens ''a_1=(b+22) *c'') \<le> MAX_TOKENS"
    by (simp add: MAX_TOKENS_def)
  from tokenize_refines_spec [of "''a_1=(b+22) *c''", THEN conjunct1, rule_format, OF h] s h
  show ?thesis by simp
qed



section \<open>The whole program\<close>

lemma main_loop_statements: "main_loop inp st = compile_all (statements inp) st"
proof (induction inp st rule: main_loop.induct)
  case (1 inp st)
  show ?case
  proof (cases "fgets MAX_LINE inp")
    case None
    then show ?thesis
      by (simp add: main_loop.simps [of inp st] statements.simps [of inp])
  next
    case (Some lr)
    obtain line rest where lr: "lr = (line, rest)" by (cases lr)
    let ?p = "skip_space (chomp line)"
    show ?thesis
    proof (cases "?p = [] \<or> hd ?p = CHR ''#''")
      case True
      with "1.IH"(1) [OF Some lr [symmetric] refl True] Some lr show ?thesis
        by (simp add: main_loop.simps [of inp st] statements.simps [of inp])
    next
      case False
      show ?thesis
      proof (cases "compile_line ?p st")
        case (Inl e)
        with False Some lr show ?thesis
          by (simp add: main_loop.simps [of inp st] statements.simps [of inp])
      next
        case (Inr st')
        with "1.IH"(2) [OF Some lr [symmetric] refl False Inr] False Some lr show ?thesis
          by (simp add: main_loop.simps [of inp st] statements.simps [of inp])
      qed
    qed
  qed
qed

lemma statements_nonblank:
  "p \<in> set (statements inp) \<Longrightarrow> p \<noteq> [] \<and> \<not> isspace (hd p) \<and> hd p \<noteq> CHR ''#''"
proof (induction inp rule: statements.induct)
  case (1 inp)
  show ?case
  proof (cases "fgets MAX_LINE inp")
    case None
    with "1.prems" show ?thesis
      by (simp add: statements.simps [of inp])
  next
    case (Some lr)
    obtain line rest where lr: "lr = (line, rest)" by (cases lr)
    let ?q = "skip_space (chomp line)"
    show ?thesis
    proof (cases "?q = [] \<or> hd ?q = CHR ''#''")
      case True
      with "1.prems" Some lr have "p \<in> set (statements rest)"
        by (simp add: statements.simps [of inp])
      with "1.IH"(1) [OF Some lr [symmetric] refl True] show ?thesis .
    next
      case False
      with "1.prems" Some lr have "p = ?q \<or> p \<in> set (statements rest)"
        by (simp add: statements.simps [of inp])
      then show ?thesis
      proof
        assume "p = ?q"
        with False skip_space_hd [of "chomp line"] show ?thesis by simp
      next
        assume "p \<in> set (statements rest)"
        with "1.IH"(2) [OF Some lr [symmetric] refl False] show ?thesis .
      qed
    qed
  qed
qed

lemma skip_space_id: "p \<noteq> [] \<Longrightarrow> \<not> isspace (hd p) \<Longrightarrow> skip_space p = p"
  by (cases p) auto

lemma tokenize_nonempty:
  assumes "p \<noteq> []" "\<not> isspace (hd p)"
  shows "tokenize p \<noteq> []"
proof -
  obtain tok p2 where nt: "next_token (skip_space p) = (tok, p2)"
    by (cases "next_token (skip_space p)")
  from assms have "skip_space p \<noteq> []"
    by (simp add: skip_space_id)
  with assms(1) nt have "tokenize p = tokenize_loop p2 [tok]"
    by (simp add: tokenize_def tokenize_loop.simps [of p "[]"] MAX_TOKENS_def)
  with tokenize_loop_bounds [of p2 "[tok]"] show ?thesis by auto
qed


lemma subst_append:
  "(is_identifier t \<longrightarrow> t \<in> set tab) \<Longrightarrow> subst (tab @ ext) t = subst tab t"
  by (simp add: subst_def slot_of_append)

lemma map_subst_append:
  "map (subst (tab @ ext)) ts = map (subst tab) ts"
  if "set (filter is_identifier ts) \<subseteq> set tab"
proof (rule map_cong [OF refl])
  fix t
  assume "t \<in> set ts"
  with that have "is_identifier t \<longrightarrow> t \<in> set tab" by auto
  then show "subst (tab @ ext) t = subst tab t" by (rule subst_append)
qed

lemma tokenize_Nil: "tokenize [] = []"
  by (simp add: tokenize_def tokenize_loop.simps)

lemma stmt_text_stable:
  assumes "tokens \<noteq> []" and "compile_tokens tokens st = Inr st'"
  shows "stmt_text (names st' @ ext) tokens = stmt_text (names st') tokens"
proof -
  from compile_tokens_ok [OF assms]
  have "names st' = names st @ new_names (names st) (stmt_refs tokens)"
    by (simp add: names_def)
  with set_new_names [of "names st" "stmt_refs tokens"]
  have refs: "set (stmt_refs tokens) \<subseteq> set (names st')"
    by auto
  from assms(1) obtain t ts where tokens: "tokens = t # ts"
    by (cases tokens) auto
  show ?thesis
  proof (cases "t = ''print''")
    case True
    with refs tokens show ?thesis
      by (simp add: stmt_text_def stmt_refs_def map_subst_append)
  next
    case np: False
    show ?thesis
    proof (cases "t = ''input''")
      case True
      from assms(2) tokens True have "length ts = 1" "is_identifier (hd ts)"
        by (auto simp: compile_tokens_input split: if_splits)
      then obtain a where ts: "ts = [a]" and a: "is_identifier a"
        by (cases ts) auto
      with refs tokens True show ?thesis
        by (simp add: stmt_text_def stmt_refs_def slot_of_append)
    next
      case ni: False
      have d: "drop 2 (t # ts) = drop 1 ts"
        by (simp add: numeral_2_eq_2)
      from refs tokens np ni have "t \<in> set (names st')"
        and "set (filter is_identifier (drop 1 ts)) \<subseteq> set (names st')"
        by (simp_all add: stmt_refs_def d)
      with tokens np ni show ?thesis
        by (simp add: stmt_text_def d map_subst_append slot_of_append)
    qed
  qed
qed

lemma compile_all_ok:
  assumes "compile_all ps st = Inr st'" and "list_all (\<lambda>p. tokenize p \<noteq> []) ps"
  shows "vars st' = vars st @
           map mk_var (new_names (names st) (concat (map (\<lambda>p. stmt_refs (tokenize p)) ps))) \<and>
         output_lines st' = output_lines st @ map (\<lambda>p. stmt_text (names st') (tokenize p)) ps"
  using assms
proof (induction ps arbitrary: st)
  case Nil
  then show ?case by simp
next
  case (Cons p ps)
  from Cons.prems(2) have tp: "tokenize p \<noteq> []" and rest: "list_all (\<lambda>p. tokenize p \<noteq> []) ps"
    by simp_all
  from Cons.prems(1) obtain st1 where c1: "compile_line p st = Inr st1"
    and c2: "compile_all ps st1 = Inr st'"
    by (cases "compile_line p st") auto
  from c1 tp have ct: "compile_tokens (tokenize p) st = Inr st1"
    by (auto simp: compile_line_def Let_def tokenize_Nil split: if_splits)
  from compile_tokens_ok [OF tp ct]
  have v1: "vars st1 = vars st @ map mk_var (new_names (names st) (stmt_refs (tokenize p)))"
    and o1: "output_lines st1 = output_lines st @ [stmt_text (names st1) (tokenize p)]"
    by simp_all
  from Cons.IH [OF c2 rest]
  have v2: "vars st' = vars st1 @
      map mk_var (new_names (names st1) (concat (map (\<lambda>p. stmt_refs (tokenize p)) ps)))"
    and o2: "output_lines st' = output_lines st1 @ map (\<lambda>p. stmt_text (names st') (tokenize p)) ps"
    by simp_all
  from v1 have n1: "names st1 = names st @ new_names (names st) (stmt_refs (tokenize p))"
    by (simp add: names_def)
  from v2 have n2: "names st' = names st1 @
      new_names (names st1) (concat (map (\<lambda>p. stmt_refs (tokenize p)) ps))"
    by (simp add: names_def)
  have "stmt_text (names st') (tokenize p) = stmt_text (names st1) (tokenize p)"
    unfolding n2 by (rule stmt_text_stable [OF tp ct])
  with o1 o2 have "output_lines st' =
      output_lines st @ map (\<lambda>p. stmt_text (names st') (tokenize p)) (p # ps)"
    by simp
  moreover from v1 v2 n1 have "vars st' = vars st @
      map mk_var (new_names (names st) (concat (map (\<lambda>p. stmt_refs (tokenize p)) (p # ps))))"
    by (simp add: new_names_append)
  ultimately show ?case by simp
qed

lemma main_loop_ok:
  assumes "main_loop inp init_state = Inr st"
  shows "names st = new_names [] (program_refs inp)"
    and "output_lines st = map (\<lambda>p. stmt_text (names st) (tokenize p)) (statements inp)"
proof -
  have "list_all (\<lambda>p. tokenize p \<noteq> []) (statements inp)"
    using statements_nonblank [of _ inp] tokenize_nonempty by (auto simp: list_all_iff)
  from compile_all_ok [OF assms [unfolded main_loop_statements] this]
  show "names st = new_names [] (program_refs inp)"
    and "output_lines st = map (\<lambda>p. stmt_text (names st) (tokenize p)) (statements inp)"
    by (simp_all add: names_def init_state_def program_refs_def)
qed

lemma distinct_new_names: "distinct tab \<Longrightarrow> distinct (tab @ new_names tab ns)"
proof (induction ns arbitrary: tab)
  case Nil
  then show ?case by simp
next
  case (Cons n ns)
  show ?case
  proof (cases "n \<in> set tab")
    case True
    with Cons.IH [OF Cons.prems] show ?thesis by simp
  next
    case False
    with Cons.prems have "distinct (tab @ [n])" by simp
    from Cons.IH [OF this] False show ?thesis by simp
  qed
qed

lemma length_new_names: "length (new_names [] ns) = card (set ns)"
proof -
  have "distinct (new_names [] ns)"
    using distinct_new_names [of "[]" ns] by simp
  moreover have "set (new_names [] ns) = set ns"
    using set_new_names [of "[]" ns] by simp
  ultimately show ?thesis
    using distinct_card [of "new_names [] ns"] by simp
qed



lemma join_comma_Cons:
  "join_comma (t # ts) = t @ (if ts = [] then [] else '', '' @ join_comma ts)"
  by (cases ts) simp_all

lemma decl_loop_eq:
  "decl_loop i n = join_comma (map (\<lambda>k. ''v'' @ dec k @ '' = 0'') [i..<n])"
proof (induction i n rule: decl_loop.induct)
  case (1 i n)
  show ?case
  proof (cases "i < n")
    case True
    then have "[i..<n] = i # [Suc i..<n]"
      by (simp add: upt_conv_Cons)
    moreover from True have "([Suc i..<n] = []) = (\<not> i < n - 1)"
      by auto
    ultimately show ?thesis
      using True "1.IH" [OF True]
      by (simp add: decl_loop.simps [of i n] join_comma_Cons del: upt_Suc)
  next
    case False
    then show ?thesis
      by (simp add: decl_loop.simps [of i n])
  qed
qed

lemma write_lines_eq: "write_lines ls = concat (map (\<lambda>l. l @ [newline]) ls)"
  by (induction ls) simp_all


lemma example_run: "main_loop example_program init_state = Inr example_state"
  by code_simp


lemma example_statements:
  "statements example_program = [''x = 5'', ''y = 10'', ''result = x + y'', ''print result'']"
  by code_simp

lemma example_output:
  "kalipso_main example_program = Inr (
     ''#include <stdio.h>'' @ [newline, newline] @
     ''int main() {'' @ [newline] @
     ''    long long v0 = 0, v1 = 0, v2 = 0;'' @ [newline] @
     ''    v0 = 5;'' @ [newline] @
     ''    v1 = 10;'' @ [newline] @
     ''    v2 = v0 + v1;'' @ [newline] @
     printf_prefix @ ''v2);'' @ [newline] @
     ''    return 0;'' @ [newline] @
     ''}'' @ [newline])"
  by code_simp

lemma print_1_run:
  "main_loop ''print 1'' init_state = Inr \<lparr>vars = [], output_lines = [printf_prefix @ ''1);'']\<rparr>"
  by code_simp




text \<open>
  Claim C9. When the compilation reaches the end of the source, the generated file is, in
  this order: the line \<open>#include <stdio.h>\<close> and an empty line; the line
  \<open>int main() {\<close>; one declaration line \<open>long long v0 = 0, ..., v<N-1> = 0;\<close> for the
  \<open>N\<close> variables of the symbol table, in slot order, and no such line when \<open>N = 0\<close>;
  one generated line for each statement of the source, in the order of the statements;
  the lines \<open>return 0;\<close> and \<open>}\<close>. The declarations stand once, before the body. When
  a statement is a fatal error, nothing is generated.
\<close>

theorem program_layout:
  "(main_loop inp init_state = Inr st \<longrightarrow>
      kalipso_main inp = Inr (
        ''#include <stdio.h>'' @ [newline, newline] @
        ''int main() {'' @ [newline] @
        declaration_line (var_count st) @
        concat (map (\<lambda>p. stmt_text (names st) (tokenize p) @ [newline]) (statements inp)) @
        ''    return 0;'' @ [newline] @
        ''}'' @ [newline])
      \<and> names st = new_names [] (program_refs inp)
      \<and> var_count st = card (set (program_refs inp)))
   \<and> (main_loop inp init_state = Inl e \<longrightarrow> kalipso_main inp = Inl e)
   \<and> declaration_line n =
       (if n = 0 then []
        else ''    long long '' @ join_comma (map (\<lambda>k. ''v'' @ dec k @ '' = 0'') [0..<n]) @
             '';'' @ [newline])"
proof (intro conjI impI)
  assume run: "main_loop inp init_state = Inr st"
  from main_loop_ok [OF run]
  have n: "names st = new_names [] (program_refs inp)"
    and o: "output_lines st = map (\<lambda>p. stmt_text (names st) (tokenize p)) (statements inp)"
    by simp_all
  have body: "write_lines (output_lines st) =
      concat (map (\<lambda>p. stmt_text (names st) (tokenize p) @ [newline]) (statements inp))"
    by (simp add: write_lines_eq o comp_def)
  have decl: "(if var_count st > 0
      then ''    long long '' @ decl_loop 0 (var_count st) @ '';'' @ [newline]
      else []) = declaration_line (var_count st)"
    by (simp add: declaration_line_def decl_loop_eq)
  have "write_program st =
      ''#include <stdio.h>'' @ [newline, newline] @
      ''int main() {'' @ [newline] @
      declaration_line (var_count st) @
      concat (map (\<lambda>p. stmt_text (names st) (tokenize p) @ [newline]) (statements inp)) @
      ''    return 0;'' @ [newline] @
      ''}'' @ [newline]"
    unfolding write_program_def decl body ..
  with run show "kalipso_main inp = Inr (
        ''#include <stdio.h>'' @ [newline, newline] @
        ''int main() {'' @ [newline] @
        declaration_line (var_count st) @
        concat (map (\<lambda>p. stmt_text (names st) (tokenize p) @ [newline]) (statements inp)) @
        ''    return 0;'' @ [newline] @
        ''}'' @ [newline])"
    by (simp add: kalipso_main_def)
  show "names st = new_names [] (program_refs inp)" by (rule n)
  have "length (names st) = card (set (program_refs inp))"
    by (simp only: n length_new_names)
  then show "var_count st = card (set (program_refs inp))"
    by (simp add: var_count_def names_def)
next
  assume "main_loop inp init_state = Inl e"
  then show "kalipso_main inp = Inl e"
    by (simp add: kalipso_main_def)
next
  show "declaration_line n =
       (if n = 0 then []
        else ''    long long '' @ join_comma (map (\<lambda>k. ''v'' @ dec k @ '' = 0'') [0..<n]) @
             '';'' @ [newline])"
    by (rule declaration_line_def)
qed

theorem program_layout_witness:
  "main_loop example_program init_state = Inr example_state
   \<and> kalipso_main example_program = Inr (
        ''#include <stdio.h>'' @ [newline, newline] @
        ''int main() {'' @ [newline] @
        declaration_line 3 @
        concat (map (\<lambda>p. stmt_text [''x'', ''y'', ''result''] (tokenize p) @ [newline])
          [''x = 5'', ''y = 10'', ''result = x + y'', ''print result'']) @
        ''    return 0;'' @ [newline] @
        ''}'' @ [newline])
   \<and> kalipso_main example_program = Inr (
        ''#include <stdio.h>'' @ [newline, newline] @
        ''int main() {'' @ [newline] @
        ''    long long v0 = 0, v1 = 0, v2 = 0;'' @ [newline] @
        ''    v0 = 5;'' @ [newline] @
        ''    v1 = 10;'' @ [newline] @
        ''    v2 = v0 + v1;'' @ [newline] @
        printf_prefix @ ''v2);'' @ [newline] @
        ''    return 0;'' @ [newline] @
        ''}'' @ [newline])
   \<and> kalipso_main ''print 1'' = Inr (
        ''#include <stdio.h>'' @ [newline, newline] @
        ''int main() {'' @ [newline] @
        printf_prefix @ ''1);'' @ [newline] @
        ''    return 0;'' @ [newline] @
        ''}'' @ [newline])
   \<and> main_loop ''foo bar'' init_state = Inl (Fatal ''Invalid statement'')
   \<and> kalipso_main ''foo bar'' = Inl (Fatal ''Invalid statement'')"
proof -
  have nm: "names example_state = [''x'', ''y'', ''result'']"
    by (simp add: names_def example_state_def mk_var_def)
  have cnt: "var_count example_state = 3"
    by (simp add: var_count_def example_state_def)
  from program_layout [of example_program example_state, THEN conjunct1, rule_format,
      OF example_run, THEN conjunct1]
  have a: "kalipso_main example_program = Inr (
        ''#include <stdio.h>'' @ [newline, newline] @
        ''int main() {'' @ [newline] @
        declaration_line 3 @
        concat (map (\<lambda>p. stmt_text [''x'', ''y'', ''result''] (tokenize p) @ [newline])
          [''x = 5'', ''y = 10'', ''result = x + y'', ''print result'']) @
        ''    return 0;'' @ [newline] @
        ''}'' @ [newline])"
    by (simp only: nm cnt example_statements)
  have st: "statements ''print 1'' = [''print 1'']"
    by code_simp
  have tk: "tokenize ''print 1'' = [''print'', ''1'']"
    by code_simp
  from program_layout [of "''print 1''" "\<lparr>vars = [], output_lines = [printf_prefix @ ''1);'']\<rparr>",
      THEN conjunct1, rule_format, OF print_1_run, THEN conjunct1]
  have b: "kalipso_main ''print 1'' = Inr (
        ''#include <stdio.h>'' @ [newline, newline] @
        ''int main() {'' @ [newline] @
        printf_prefix @ ''1);'' @ [newline] @
        ''    return 0;'' @ [newline] @
        ''}'' @ [newline])"
    by (simp add: st tk declaration_line_def var_count_def names_def stmt_text_def subst_def
        isalpha_def)
  have f: "main_loop ''foo bar'' init_state = Inl (Fatal ''Invalid statement'')"
    by code_simp
  from program_layout [of "''foo bar''" _ "Fatal ''Invalid statement''", THEN conjunct2,
      THEN conjunct1, rule_format, OF f]
  have c: "kalipso_main ''foo bar'' = Inl (Fatal ''Invalid statement'')" .
  from example_run a example_output b f c show ?thesis by simp
qed


end
